theory Spec2Isabelle
  imports Main "HOL-Library.Char_ord" "HOL-Library.List_Lexorder" "HOL-Library.Multiset"
begin

section \<open>Text model\<close>

text \<open>
  The indexer works on Python \<open>str\<close> values. A \<^typ>\<open>string\<close> here is a list of code
  points, one \<^typ>\<open>char\<close> per code point, covering U+0000 to U+00FF; the character
  predicates below follow Python 3 on that range. Strings are ordered by code point,
  lexicographically, as Python compares \<open>str\<close>.
\<close>

definition code :: "char \<Rightarrow> nat" where
  "code c = of_char c"

text \<open>\<open>\s\<close> of a \<open>str\<close> pattern: the characters for which \<open>str.isspace\<close> holds.\<close>

definition is_space :: "char \<Rightarrow> bool" where
  "is_space c = ((9 \<le> code c \<and> code c \<le> 13) \<or> (28 \<le> code c \<and> code c \<le> 32)
                 \<or> code c = 133 \<or> code c = 160)"

definition is_lower_az :: "char \<Rightarrow> bool" where
  "is_lower_az c = (CHR ''a'' \<le> c \<and> c \<le> CHR ''z'')"

definition is_upper_az :: "char \<Rightarrow> bool" where
  "is_upper_az c = (CHR ''A'' \<le> c \<and> c \<le> CHR ''Z'')"

definition is_letter :: "char \<Rightarrow> bool" where
  "is_letter c = (is_lower_az c \<or> is_upper_az c)"

text \<open>\<open>\w\<close> of a \<open>str\<close> pattern: alphanumeric code points and the underscore.\<close>

definition is_word :: "char \<Rightarrow> bool" where
  "is_word c = (is_letter c \<or> (CHR ''0'' \<le> c \<and> c \<le> CHR ''9'') \<or> c = CHR ''_''
                \<or> code c \<in> {170, 178, 179, 181, 185, 186, 188, 189, 190}
                \<or> (192 \<le> code c \<and> code c \<noteq> 215 \<and> code c \<noteq> 247))"

text \<open>\<open>str.lower\<close>, one character at a time (no code point below U+0100 lowers to
  more than one character).\<close>

definition lower_char :: "char \<Rightarrow> char" where
  "lower_char c = (if is_upper_az c \<or> (192 \<le> code c \<and> code c \<le> 222 \<and> code c \<noteq> 215)
                   then char_of (code c + 32) else c)"

definition lower :: "string \<Rightarrow> string" where
  "lower s = map lower_char s"

text \<open>\<open>str.upper\<close> of a one-character string, as the list of code points of the result:
  U+00DF upper-cases to the two letters SS, U+00B5 to U+039C and U+00FF to U+0178.\<close>

definition upper_char :: "char \<Rightarrow> nat list" where
  "upper_char c = (if is_lower_az c \<or> (224 \<le> code c \<and> code c \<le> 254 \<and> code c \<noteq> 247)
                   then [code c - 32]
                   else if code c = 223 then [83, 83]
                   else if code c = 181 then [924]
                   else if code c = 255 then [376]
                   else [code c])"

section \<open>Regular expressions as Python's \<open>re\<close> matches them\<close>

text \<open>
  The patterns of the source use character classes, literals, \<open>\b\<close>, sequence,
  alternation and the greedy \<open>*\<close> and \<open>+\<close>. A match position is the character before
  the cursor (for \<open>\b\<close>) and the text after it; the matcher returns the positions a
  pattern can end at, in the order the backtracking engine tries them, so the head of
  the list is the match \<open>re\<close> reports.
\<close>

datatype rx = Cls "char \<Rightarrow> bool" | Lit string | WordB | Seq rx rx | Alt rx rx | Star rx

abbreviation Plus :: "rx \<Rightarrow> rx" where
  "Plus r \<equiv> Seq r (Star r)"

type_synonym pos = "char option \<times> string"

fun lit_match :: "string \<Rightarrow> pos \<Rightarrow> pos list" where
  "lit_match [] st = [st]"
| "lit_match (a # as) (p, []) = []"
| "lit_match (a # as) (p, c # s) = (if a = c then lit_match as (Some c, s) else [])"

definition at_boundary :: "pos \<Rightarrow> bool" where
  "at_boundary st =
     ((case fst st of None \<Rightarrow> False | Some c \<Rightarrow> is_word c)
        \<noteq> (case snd st of [] \<Rightarrow> False | c # _ \<Rightarrow> is_word c))"

text \<open>Greedy repetition: another round first, stopping here last. A round that consumes
  nothing ends the repetition, so \<open>length\<close> of the remaining text bounds the rounds.\<close>

fun greedy_star :: "nat \<Rightarrow> (pos \<Rightarrow> pos list) \<Rightarrow> pos \<Rightarrow> pos list" where
  "greedy_star 0 f st = [st]"
| "greedy_star (Suc n) f st =
     concat (map (greedy_star n f)
                 (filter (\<lambda>st'. length (snd st') < length (snd st)) (f st))) @ [st]"

primrec rx_match :: "rx \<Rightarrow> pos \<Rightarrow> pos list" where
  "rx_match (Cls P) = (\<lambda>st. case snd st of [] \<Rightarrow> []
                              | c # s \<Rightarrow> if P c then [(Some c, s)] else [])"
| "rx_match (Lit w) = lit_match w"
| "rx_match WordB = (\<lambda>st. if at_boundary st then [st] else [])"
| "rx_match (Seq a b) = (\<lambda>st. concat (map (rx_match b) (rx_match a st)))"
| "rx_match (Alt a b) = (\<lambda>st. rx_match a st @ rx_match b st)"
| "rx_match (Star a) = (\<lambda>st. greedy_star (length (snd st)) (rx_match a) st)"

text \<open>\<open>re.findall\<close> for a pattern without groups: scan left to right, take the first
  match at the leftmost position, continue after it. (None of the source's patterns can
  match the empty string; an empty match is recorded and the scan moves on one
  character.)\<close>

fun findall_from :: "rx \<Rightarrow> char option \<Rightarrow> string \<Rightarrow> string list" where
  "findall_from r p s =
     (case rx_match r (p, s) of
        (p', s') # _ \<Rightarrow>
          if length s' < length s
          then take (length s - length s') s # findall_from r p' s'
          else [] # (case s of [] \<Rightarrow> [] | c # cs \<Rightarrow> findall_from r (Some c) cs)
      | [] \<Rightarrow> (case s of [] \<Rightarrow> [] | c # cs \<Rightarrow> findall_from r (Some c) cs))"

definition findall :: "rx \<Rightarrow> string \<Rightarrow> string list" where
  "findall r text = findall_from r None text"

text \<open>\<open>re.sub\<close> with a literal replacement: matches are replaced, the text between them
  is copied.\<close>

fun sub_from :: "rx \<Rightarrow> string \<Rightarrow> char option \<Rightarrow> string \<Rightarrow> string" where
  "sub_from r repl p s =
     (case rx_match r (p, s) of
        (p', s') # _ \<Rightarrow>
          if length s' < length s
          then repl @ sub_from r repl p' s'
          else repl @ (case s of [] \<Rightarrow> [] | c # cs \<Rightarrow> c # sub_from r repl (Some c) cs)
      | [] \<Rightarrow> (case s of [] \<Rightarrow> [] | c # cs \<Rightarrow> c # sub_from r repl (Some c) cs))"

definition sub :: "rx \<Rightarrow> string \<Rightarrow> string \<Rightarrow> string" where
  "sub r repl text = sub_from r repl None text"

section \<open>Term extraction\<close>

text \<open>The stop words of the source, in its order.\<close>

definition STOP_WORDS :: "string list" where
  "STOP_WORDS = [
    ''a'', ''about'', ''above'', ''after'', ''again'', ''against'', ''all'', ''am'', ''an'',
    ''and'', ''any'', ''are'', ''aren't'', ''as'', ''at'', ''be'', ''because'', ''been'',
    ''before'', ''being'', ''below'', ''between'', ''both'', ''but'', ''by'', ''can't'',
    ''cannot'', ''could'', ''couldn't'', ''did'', ''didn't'', ''do'', ''does'', ''doesn't'',
    ''doing'', ''don't'', ''down'', ''during'', ''each'', ''few'', ''for'', ''from'',
    ''further'', ''had'', ''hadn't'', ''has'', ''hasn't'', ''have'', ''haven't'', ''having'',
    ''he'', ''he'd'', ''he'll'', ''he's'', ''her'', ''here'', ''here's'', ''hers'',
    ''herself'', ''him'', ''himself'', ''his'', ''how'', ''how's'', ''i'', ''i'd'', ''i'll'',
    ''i'm'', ''i've'', ''if'', ''in'', ''into'', ''is'', ''isn't'', ''it'', ''it's'', ''its'',
    ''itself'', ''let's'', ''me'', ''more'', ''most'', ''mustn't'', ''my'', ''myself'', ''no'',
    ''nor'', ''not'', ''of'', ''off'', ''on'', ''once'', ''only'', ''or'', ''other'',
    ''ought'', ''our'', ''ours'', ''ourselves'', ''out'', ''over'', ''own'', ''same'',
    ''shan't'', ''she'', ''she'd'', ''she'll'', ''she's'', ''should'', ''shouldn't'', ''so'',
    ''some'', ''such'', ''than'', ''that'', ''that's'', ''the'', ''their'', ''theirs'',
    ''them'', ''themselves'', ''then'', ''there'', ''there's'', ''these'', ''they'',
    ''they'd'', ''they'll'', ''they're'', ''they've'', ''this'', ''those'', ''through'',
    ''to'', ''too'', ''under'', ''until'', ''up'', ''very'', ''was'', ''wasn't'', ''we'',
    ''we'd'', ''we'll'', ''we're'', ''we've'', ''were'', ''weren't'', ''what'', ''what's'',
    ''when'', ''when's'', ''where'', ''where's'', ''which'', ''while'', ''who'', ''who's'',
    ''whom'', ''why'', ''why's'', ''with'', ''won't'', ''would'', ''wouldn't'', ''you'',
    ''you'd'', ''you'll'', ''you're'', ''you've'', ''your'', ''yours'', ''yourself'',
    ''yourselves'']"

text \<open>The class \<open>[a-zA-Z-./]\<close>: the two ranges, then the literals \<open>-\<close>, \<open>.\<close> and \<open>/\<close>.\<close>

definition word_class :: "char \<Rightarrow> bool" where
  "word_class c = (is_letter c \<or> c = CHR ''-'' \<or> c = CHR ''.'' \<or> c = CHR ''/'')"

text \<open>\<^verbatim>\<open>WORD_REGEX = r'\b[a-zA-Z-./]+(?:\s*/\s*[a-zA-Z-./]+)*\b'\<close>\<close>

definition WORD_REGEX :: rx where
  "WORD_REGEX =
     Seq WordB (Seq (Plus (Cls word_class))
       (Seq (Star (Seq (Star (Cls is_space)) (Seq (Lit ''/'') (Seq (Star (Cls is_space))
                    (Plus (Cls word_class))))))
            WordB))"

text \<open>\<^verbatim>\<open>r'\s*/\s*'\<close>, the pattern of \<open>_normalize_term\<close>.\<close>

definition SLASH_REGEX :: rx where
  "SLASH_REGEX = Seq (Star (Cls is_space)) (Seq (Lit ''/'') (Star (Cls is_space)))"

text \<open>The pattern of the phrase pass:
  \<^verbatim>\<open>r'\b[A-Z][a-zA-Z]*(?:\s+(?:of|the|and|for|in|to|on)\s+[A-Z][a-zA-Z]*)*(?:\s+[A-Z][a-zA-Z]*)*\b'\<close>\<close>

definition cap_word :: rx where
  "cap_word = Seq (Cls is_upper_az) (Star (Cls is_letter))"

definition connector :: rx where
  "connector = Alt (Lit ''of'') (Alt (Lit ''the'') (Alt (Lit ''and'') (Alt (Lit ''for'')
                 (Alt (Lit ''in'') (Alt (Lit ''to'') (Lit ''on''))))))"

definition PHRASE_REGEX :: rx where
  "PHRASE_REGEX =
     Seq WordB (Seq cap_word
       (Seq (Star (Seq (Plus (Cls is_space)) (Seq connector (Seq (Plus (Cls is_space)) cap_word))))
       (Seq (Star (Seq (Plus (Cls is_space)) cap_word))
            WordB)))"

definition normalize_term :: "string \<Rightarrow> string" where
  "normalize_term term = lower (sub SLASH_REGEX ''/'' term)"

text \<open>\<open>_extract_terms\<close>. In mode \<open>phrases\<close> the source returns \<open>list(set(...))\<close>, whose
  order Python leaves open; the model lists each term once, in order of first
  occurrence, and no statement below depends on that order.\<close>

definition extract_terms :: "string \<Rightarrow> string \<Rightarrow> string list" where
  "extract_terms text mode =
     (let raw_words = findall WORD_REGEX text;
          normalized_words = map normalize_term raw_words
      in if mode = ''words'' then filter (\<lambda>word. word \<notin> set STOP_WORDS) normalized_words
         else if mode = ''words_no_filter'' then normalized_words
         else if mode = ''phrases'' then
           (let phrases = findall PHRASE_REGEX text;
                normalized_phrases = map lower phrases;
                filtered_words = filter (\<lambda>word. word \<notin> set STOP_WORDS) normalized_words
            in remdups (normalized_phrases @ filtered_words))
         else [])"

section \<open>Index accumulation\<close>

datatype error = ImportError | IndexError | IOFailure

text \<open>The index is a \<open>dict\<close> from term to \<open>set\<close> of page numbers: an association list
  with distinct keys in insertion order. Two dicts are equal in Python when they hold
  the same keys with the same values, whatever the insertion order: \<open>map_of\<close> of the
  two lists.\<close>

type_synonym term_map = "(string \<times> int set) list"

text \<open>\<open>term_map[term].add(n)\<close> on a \<open>defaultdict(set)\<close>.\<close>

fun add_page :: "term_map \<Rightarrow> string \<Rightarrow> int \<Rightarrow> term_map" where
  "add_page [] term n = [(term, {n})]"
| "add_page ((k, s) # m) term n =
     (if k = term then (k, insert n s) # m else (k, s) # add_page m term n)"

text \<open>The inner loop of \<open>extract_from_pdf\<close>: every term of one page is recorded under
  the page's number.\<close>

definition add_terms :: "term_map \<Rightarrow> int \<Rightarrow> string list \<Rightarrow> term_map" where
  "add_terms term_map n terms = fold (\<lambda>term m. add_page m term n) terms term_map"

definition add_all :: "term_map \<Rightarrow> (int \<times> string list) list \<Rightarrow> term_map" where
  "add_all term_map ps = fold (\<lambda>(n, terms) m. add_terms m n terms) ps term_map"

text \<open>The page loop, \<open>for i, page in enumerate(pdf_doc)\<close>, over the page texts that the
  PDF library returns.\<close>

fun scan_pages :: "term_map \<Rightarrow> int \<Rightarrow> string list \<Rightarrow> string \<Rightarrow> term_map" where
  "scan_pages term_map i [] mode = term_map"
| "scan_pages term_map i (text # rest) mode =
     scan_pages (add_terms term_map (i + 1) (extract_terms text mode)) (i + 1) rest mode"

definition extract_from_pdf :: "bool \<Rightarrow> string list \<Rightarrow> string \<Rightarrow> error + term_map" where
  "extract_from_pdf FILE_PROCESSING_AVAILABLE pages mode =
     (if \<not> FILE_PROCESSING_AVAILABLE then Inl ImportError
      else Inr (scan_pages [] 0 pages mode))"

section \<open>Rendering\<close>

abbreviation nl :: string where "nl \<equiv> [CHR 0x0A]"
abbreviation dq :: string where "dq \<equiv> [CHR 0x22]"
abbreviation bs :: string where "bs \<equiv> [CHR 0x5C]"

text \<open>\<open>grouped_terms\<close> is a \<open>defaultdict(list)\<close>; \<open>grouped_terms[key].append(term)\<close>:\<close>

type_synonym groups = "(string \<times> string list) list"

fun group_append :: "groups \<Rightarrow> string \<Rightarrow> string \<Rightarrow> groups" where
  "group_append [] key term = [(key, [term])]"
| "group_append ((k, ts) # g) key term =
     (if k = key then (k, ts @ [term]) # g else (k, ts) # group_append g key term)"

text \<open>The grouping loop. \<open>term[0]\<close> raises \<open>IndexError\<close> on the empty string; the test
  \<^verbatim>\<open>'A' <= first_letter <= 'Z'\<close> compares strings.\<close>

fun group_terms :: "groups \<Rightarrow> string list \<Rightarrow> error + groups" where
  "group_terms grouped_terms [] = Inr grouped_terms"
| "group_terms grouped_terms (term # rest) =
     (case term of
        [] \<Rightarrow> Inl IndexError
      | c # _ \<Rightarrow>
          (let first_letter = upper_char c
           in if [code CHR ''A''] \<le> first_letter \<and> first_letter \<le> [code CHR ''Z'']
              then group_terms (group_append grouped_terms (map char_of first_letter) term) rest
              else group_terms (group_append grouped_terms ''#'' term) rest))"

definition sorted_letters :: "groups \<Rightarrow> string list" where
  "sorted_letters grouped_terms =
     (let letters = sort (map fst grouped_terms)
      in if ''#'' \<in> set letters then remove1 ''#'' letters @ [''#''] else letters)"

text \<open>\<open>str\<close> of an \<open>int\<close>.\<close>

fun str_nat :: "nat \<Rightarrow> string" where
  "str_nat n = (if n < 10 then [char_of (48 + n)]
                else str_nat (n div 10) @ [char_of (48 + n mod 10)])"

definition str_int :: "int \<Rightarrow> string" where
  "str_int i = (if i < 0 then CHR ''-'' # str_nat (nat (- i)) else str_nat (nat i))"

fun join :: "string \<Rightarrow> string list \<Rightarrow> string" where
  "join sep [] = []"
| "join sep [x] = x"
| "join sep (x # y # ys) = x @ sep @ join sep (y # ys)"

text \<open>\<^verbatim>\<open>term.replace('"', '\\"')\<close>\<close>

definition escape_quotes :: "string \<Rightarrow> string" where
  "escape_quotes term = concat (map (\<lambda>c. if c = CHR 0x22 then bs @ dq else [c]) term)"

text \<open>The two lookups of the writing loop, \<open>term_map[term]\<close> and \<open>grouped_terms[letter]\<close>,
  are made at keys of the dict itself.\<close>

definition pages_of :: "term_map \<Rightarrow> string \<Rightarrow> int set" where
  "pages_of term_map term = (case map_of term_map term of Some s \<Rightarrow> s | None \<Rightarrow> {})"

definition terms_of :: "groups \<Rightarrow> string \<Rightarrow> string list" where
  "terms_of grouped_terms letter =
     (case map_of grouped_terms letter of Some ts \<Rightarrow> ts | None \<Rightarrow> [])"

definition term_line :: "term_map \<Rightarrow> string \<Rightarrow> string" where
  "term_line term_map term =
     (let pages = join '', '' (map str_int (sorted_list_of_set (pages_of term_map term)));
          escaped_term = escape_quotes term
      in ''  #text(weight: '' @ dq @ ''bold'' @ dq @ '')['' @ escaped_term @ '']: '' @ pages
           @ bs @ nl)"

text \<open>The arguments of the \<open>f.write\<close> calls, in order: the header, the letter blocks, the
  closing bracket.\<close>

definition header_chunks :: "string list" where
  "header_chunks = [
    ''// ==============================================='' @ nl,
    ''// Typst Index Layout by Mutro'' @ nl,
    ''// Based on previously approved format'' @ nl,
    ''// ==============================================='' @ nl @ nl,
    ''// 1. Document & Page Setup'' @ nl,
    ''#set document(title: '' @ dq @ ''Index table'' @ dq @ '', author: '' @ dq @ ''Mutro'' @ dq @ '')'' @ nl,
    ''#set page(paper: '' @ dq @ ''a4'' @ dq @ '', margin: (x: 2cm, y: 2.5cm))'' @ nl @ nl,
    ''// 2. Font Setup'' @ nl,
    ''#set text(font: ('' @ dq @ ''New Computer Modern'' @ dq @ '', '' @ dq @ ''Noto Serif CJK SC'' @ dq @ ''), size: 10pt)'' @ nl @ nl,
    ''// 3. Title Section'' @ nl,
    ''#align(center)['' @ nl,
    ''  #text(size: 24pt, weight: 600)[Index]'' @ nl,
    '']'' @ nl @ ''#v(2em)'' @ nl @ nl,
    ''// 4. Main Content'' @ nl,
    ''#columns(2, gutter: 1.5em)['' @ nl]"

definition block_chunks :: "term_map \<Rightarrow> groups \<Rightarrow> nat \<Rightarrow> string \<Rightarrow> string list" where
  "block_chunks term_map grouped_terms i letter =
     (let display_letter = (if letter = ''#'' then bs @ ''#'' else letter)
      in (if i > 0 then [nl] else [])
         @ [''  // --- '' @ letter @ '' ---'' @ nl,
            ''  #text(size: 18pt, weight: '' @ dq @ ''bold'' @ dq @ '')['' @ display_letter @ '']'' @ nl,
            ''  #line(length: 100%)'' @ nl,
            ''  #v(0.8em)'' @ nl]
         @ map (term_line term_map) (terms_of grouped_terms letter))"

fun letter_chunks :: "term_map \<Rightarrow> groups \<Rightarrow> nat \<Rightarrow> string list \<Rightarrow> string list" where
  "letter_chunks term_map grouped_terms i [] = []"
| "letter_chunks term_map grouped_terms i (letter # rest) =
     block_chunks term_map grouped_terms i letter
       @ letter_chunks term_map grouped_terms (Suc i) rest"

definition chunks :: "term_map \<Rightarrow> groups \<Rightarrow> string list" where
  "chunks term_map grouped_terms =
     header_chunks
       @ letter_chunks term_map grouped_terms 0 (sorted_letters grouped_terms)
       @ ['']'']"

text \<open>The output file. \<open>open(output_path, 'w', encoding='utf-8')\<close> creates or empties the
  file and returns a buffered text file: \<open>f.write\<close> encodes its argument and appends the
  bytes to the buffers, which hand bytes to the device in order, at moments of their own
  choosing; leaving the \<open>with\<close> block closes the file, which hands over what is still
  pending. (Line ends are written as they are, as on POSIX.)\<close>

definition utf8_char :: "char \<Rightarrow> string" where
  "utf8_char c = (if code c < 128 then [c]
                  else [char_of (192 + code c div 64), char_of (128 + code c mod 64)])"

definition utf8 :: "string \<Rightarrow> string" where
  "utf8 s = concat (map utf8_char s)"

text \<open>What the environment can do to the file: nothing, refuse to open it, or take
  \<open>n\<close> bytes and refuse every byte after them (a full device, a size limit).\<close>

datatype io_fault = NoFault | OpenFails | DeviceFull nat

text \<open>The open file: the bytes on the device, the bytes still in the buffers, and how
  many more bytes the device takes (\<open>None\<close>: any number).\<close>

record out_file =
  disk :: string
  pending :: string
  room :: "nat option"

text \<open>Handing the first \<open>k\<close> pending bytes to the device. The device takes them all, or
  as many as it has room for and then fails (\<open>False\<close>); the bytes it did not take stay
  pending.\<close>

definition push :: "nat \<Rightarrow> out_file \<Rightarrow> out_file \<times> bool" where
  "push k f =
     (let bytes = take k (pending f)
      in case room f of
           None \<Rightarrow> (f\<lparr>disk := disk f @ bytes, pending := drop k (pending f)\<rparr>, True)
         | Some r \<Rightarrow>
             if length bytes \<le> r
             then (f\<lparr>disk := disk f @ bytes, pending := drop k (pending f),
                     room := Some (r - length bytes)\<rparr>, True)
             else (f\<lparr>disk := disk f @ take r bytes, pending := drop r (pending f),
                     room := Some 0\<rparr>, False))"

text \<open>\<open>f.write(chunk)\<close>, the \<open>i\<close>-th of the call. How many pending bytes the buffers hand
  on after it is the business of the library: \<open>buffering i n\<close>, for \<open>n\<close> bytes pending,
  is any function.\<close>

definition f_write :: "(nat \<Rightarrow> nat \<Rightarrow> nat) \<Rightarrow> nat \<Rightarrow> out_file \<Rightarrow> string \<Rightarrow> out_file \<times> bool" where
  "f_write buffering i f chunk =
     (let f' = f\<lparr>pending := pending f @ utf8 chunk\<rparr>
      in push (buffering i (length (pending f'))) f')"

fun write_chunks ::
    "(nat \<Rightarrow> nat \<Rightarrow> nat) \<Rightarrow> nat \<Rightarrow> out_file \<Rightarrow> string list \<Rightarrow> out_file \<times> bool" where
  "write_chunks buffering i f [] = (f, True)"
| "write_chunks buffering i f (chunk # rest) =
     (case f_write buffering i f chunk of
        (f', True) \<Rightarrow> write_chunks buffering (Suc i) f' rest
      | (f', False) \<Rightarrow> (f', False))"

text \<open>\<open>f.close()\<close> hands over everything that is pending.\<close>

definition f_close :: "out_file \<Rightarrow> out_file \<times> bool" where
  "f_close f = push (length (pending f)) f"

text \<open>\<open>save_results_as_txt\<close>: the buffering, the environment, the file at \<open>output_path\<close>
  before the call (\<open>None\<close> when there is none) and the index go in; the file after the
  call and the exception raised, if any, come out. The file is closed on the way out of
  the \<open>with\<close> block whether or not a write has failed. The status callback only reports
  and is left out.\<close>

definition save_results_as_txt ::
    "(nat \<Rightarrow> nat \<Rightarrow> nat) \<Rightarrow> io_fault \<Rightarrow> string option \<Rightarrow> term_map
       \<Rightarrow> string option \<times> error option" where
  "save_results_as_txt buffering fault file term_map =
     (case group_terms [] (sort (map fst term_map)) of
        Inl e \<Rightarrow> (file, Some e)
      | Inr grouped_terms \<Rightarrow>
          if fault = OpenFails then (file, Some IOFailure)
          else
            (let f = \<lparr>disk = [], pending = [],
                      room = (case fault of DeviceFull n \<Rightarrow> Some n | _ \<Rightarrow> None)\<rparr>;
                 (f', written) = write_chunks buffering 0 f (chunks term_map grouped_terms);
                 (f'', closed) = f_close f'
             in (Some (disk f''), if written \<and> closed then None else Some IOFailure)))"

section \<open>Auxiliary notions for the proofs\<close>

text \<open>The pages on which a term occurs, given the recorded (page number, terms) pairs.\<close>

definition pages_with :: "(int \<times> string list) list \<Rightarrow> string \<Rightarrow> int set" where
  "pages_with ps k = {n. \<exists>ts. (n, ts) \<in> set ps \<and> k \<in> set ts}"

text \<open>The patterns that cannot match the empty string.\<close>

primrec nonnull :: "rx \<Rightarrow> bool" where
  "nonnull (Cls P) = True"
| "nonnull (Lit w) = (w \<noteq> [])"
| "nonnull WordB = False"
| "nonnull (Seq a b) = (nonnull a \<or> nonnull b)"
| "nonnull (Alt a b) = (nonnull a \<and> nonnull b)"
| "nonnull (Star a) = False"

text \<open>What the greedy star of a character class returns: the ends of the run, longest first.\<close>

fun cls_run :: "(char \<Rightarrow> bool) \<Rightarrow> char option \<Rightarrow> string \<Rightarrow> pos list" where
  "cls_run P q [] = [(q, [])]"
| "cls_run P q (c # s) = (if P c then cls_run P (Some c) s @ [(q, c # s)] else [(q, c # s)])"

text \<open>The slash pattern matches at the start of a text: optional white space, then a slash.\<close>

definition starts_slash :: "string \<Rightarrow> bool" where
  "starts_slash s = (case dropWhile is_space s of [] \<Rightarrow> False | c # _ \<Rightarrow> c = CHR ''/'')"

text \<open>The substitution of \<open>_normalize_term\<close>, written out: every slash absorbs the white space
  around it.\<close>

function squeeze :: "string \<Rightarrow> string" where
  "squeeze [] = []"
| "squeeze (c # s) =
     (if starts_slash (c # s)
      then CHR ''/'' # squeeze (dropWhile is_space (tl (dropWhile is_space (c # s))))
      else c # squeeze s)"
  by pat_completeness auto
termination
proof (relation "measure length")
  show "wf (measure length)" by simp
next
  fix c s
  have "length (dropWhile is_space (tl (dropWhile is_space (c # s))))
          \<le> length (tl (dropWhile is_space (c # s)))"
    by (rule length_dropWhile_le)
  also have "\<dots> \<le> length (tl (c # s))"
    using length_dropWhile_le [of is_space "c # s"] by simp
  finally show "(dropWhile is_space (tl (dropWhile is_space (c # s))), c # s) \<in> measure length"
    by simp
next
  fix c s
  show "(s, c # s) \<in> measure length" by simp
qed

text \<open>No slash of the text has white space next to it.\<close>

fun tight :: "string \<Rightarrow> bool" where
  "tight [] = True"
| "tight [c] = True"
| "tight (a # b # s) =
     (\<not> (is_space a \<and> b = CHR ''/'') \<and> \<not> (a = CHR ''/'' \<and> is_space b) \<and> tight (b # s))"

text \<open>What is on the device once the file is closed, and whether closing succeeded.\<close>

definition final :: "out_file \<Rightarrow> string \<times> bool" where
  "final f = (let (f', ok) = f_close f in (disk f', ok))"

text \<open>The bucket the grouping loop files a non-empty term under.\<close>

definition bucket :: "string \<Rightarrow> string" where
  "bucket term =
     (let first_letter = upper_char (hd term)
      in if [code CHR ''A''] \<le> first_letter \<and> first_letter \<le> [code CHR ''Z'']
         then map char_of first_letter else ''#'')"

text \<open>Every match of the pattern starts with a character of the class.\<close>

definition leads :: "(char \<Rightarrow> bool) \<Rightarrow> rx \<Rightarrow> bool" where
  "leads P r = (\<forall>p s. rx_match r (p, s) \<noteq> [] \<longrightarrow> s \<noteq> [] \<and> P (hd s))"

text \<open>The characters an extracted term can start with.\<close>

definition term_lead :: "char \<Rightarrow> bool" where
  "term_lead c = (is_lower_az c \<or> c = CHR ''-'' \<or> c = CHR ''.'' \<or> c = CHR ''/'')"

section \<open>Properties of the matcher\<close>

declare findall_from.simps [simp del] sub_from.simps [simp del]

lemma lit_match_length:
  "st' \<in> set (lit_match w st) \<Longrightarrow> length (snd st') + length w = length (snd st)"
  by (induction w st rule: lit_match.induct) (auto split: if_splits)

lemma greedy_star_length:
  "st' \<in> set (greedy_star n f st) \<Longrightarrow> length (snd st') \<le> length (snd st)"
proof (induction n arbitrary: st)
  case 0
  then show ?case by simp
next
  case (Suc n)
  from Suc.prems show ?case
  proof (auto)
    fix a b
    assume 1: "(a, b) \<in> set (f st)" "length b < length (snd st)" and 2: "st' \<in> set (greedy_star n f (a, b))"
    from Suc.IH [OF 2] 1 show "length (snd st') \<le> length (snd st)" by simp
  qed
qed

lemma rx_match_length:
  "st' \<in> set (rx_match r st) \<Longrightarrow> length (snd st') \<le> length (snd st)"
proof (induction r arbitrary: st st')
  case (Cls P)
  then show ?case by (cases "snd st") (auto split: if_splits)
next
  case (Lit w)
  then show ?case using lit_match_length [of st' w st] by simp
next
  case WordB
  then show ?case by (auto split: if_splits)
next
  case (Seq a b)
  from Seq.prems obtain m where "m \<in> set (rx_match a st)" "st' \<in> set (rx_match b m)"
    by auto
  then show ?case using Seq.IH(1) [of m st] Seq.IH(2) [of st' m] by simp
next
  case (Alt a b)
  from Alt.prems have "st' \<in> set (rx_match a st) \<or> st' \<in> set (rx_match b st)" by simp
  then show ?case using Alt.IH by blast
next
  case (Star a)
  then show ?case using greedy_star_length by simp
qed

lemma rx_match_nonnull:
  "nonnull r \<Longrightarrow> st' \<in> set (rx_match r st) \<Longrightarrow> length (snd st') < length (snd st)"
proof (induction r arbitrary: st st')
  case (Cls P)
  then show ?case by (cases "snd st") (auto split: if_splits)
next
  case (Lit w)
  then show ?case using lit_match_length [of st' w st] by (cases w) simp_all
next
  case (Seq a b)
  from Seq.prems obtain m where m: "m \<in> set (rx_match a st)" "st' \<in> set (rx_match b m)"
    by auto
  have le: "length (snd m) \<le> length (snd st)" "length (snd st') \<le> length (snd m)"
    using m rx_match_length by blast+
  from Seq.prems(1) have "nonnull a \<or> nonnull b" by simp
  then show ?case
  proof
    assume "nonnull a"
    then have "length (snd m) < length (snd st)" using Seq.IH(1) m(1) by blast
    with le show ?thesis by simp
  next
    assume "nonnull b"
    then have "length (snd st') < length (snd m)" using Seq.IH(2) m(2) by blast
    with le show ?thesis by simp
  qed
next
  case (Alt a b)
  from Alt.prems have "st' \<in> set (rx_match a st) \<or> st' \<in> set (rx_match b st)" by simp
  moreover from Alt.prems have "nonnull a" "nonnull b" by simp_all
  ultimately show ?case using Alt.IH by blast
qed simp_all

lemma findall_from_nonempty:
  "nonnull r \<Longrightarrow> t \<in> set (findall_from r p s) \<Longrightarrow> t \<noteq> []"
proof (induction r p s rule: findall_from.induct)
  case (1 r p s)
  show ?case
  proof (cases "rx_match r (p, s)")
    case Nil
    note no_match = Nil
    show ?thesis
    proof (cases s)
      case Nil
      with no_match "1.prems" show ?thesis
        by (simp add: findall_from.simps)
    next
      case (Cons c cs)
      from no_match "1.prems" Cons
      have "t \<in> set (findall_from r (Some c) cs)"
        by (simp add: findall_from.simps [of r p "c # cs"])
      with "1.IH"(1) [OF no_match Cons "1.prems"(1)] show ?thesis
        by simp
    qed
  next
    case (Cons m ms)
    obtain p' s' where m: "m = (p', s')" by (cases m)
    have lt: "length s' < length s"
      using rx_match_nonnull [of r m "(p, s)"] "1.prems"(1) Cons m by simp
    then have ne: "take (length s - length s') s \<noteq> []" by auto
    from "1.prems" Cons m lt have "t = take (length s - length s') s \<or> t \<in> set (findall_from r p' s')"
      by (simp add: findall_from.simps [of r p s])
    then show ?thesis using ne "1.IH"(2) [OF Cons m [symmetric] lt "1.prems"(1)]
      by auto
  qed
qed

lemma nonnull_WORD_REGEX: "nonnull WORD_REGEX"
  by (simp add: WORD_REGEX_def)

lemma nonnull_PHRASE_REGEX: "nonnull PHRASE_REGEX"
  by (simp add: PHRASE_REGEX_def cap_word_def)

lemma sub_from_nonempty: "s \<noteq> [] \<Longrightarrow> repl \<noteq> [] \<Longrightarrow> sub_from r repl p s \<noteq> []"
  by (subst sub_from.simps) (auto split: list.splits)

text \<open>The slash pattern of \<open>_normalize_term\<close>.\<close>

lemma greedy_star_cls:
  "length s \<le> n \<Longrightarrow> greedy_star n (rx_match (Cls P)) (q, s) = cls_run P q s"
proof (induction n arbitrary: q s)
  case 0
  then show ?case by simp
next
  case (Suc n)
  show ?case
  proof (cases s)
    case Nil
    then show ?thesis by simp
  next
    case (Cons c s')
    with Suc.prems have "length s' \<le> n" by simp
    from Suc.IH [OF this] show ?thesis by (simp add: Cons)
  qed
qed

lemma cls_run_hd: "cls_run P q s \<noteq> [] \<and> snd (hd (cls_run P q s)) = dropWhile P s"
  by (induction s arbitrary: q) simp_all

lemma rx_match_Star_Cls: "rx_match (Star (Cls P)) (q, s) = cls_run P q s"
  using greedy_star_cls [of s "length s" P q] by simp

lemma rx_match_Seq: "rx_match (Seq a b) st = concat (map (rx_match b) (rx_match a st))"
  by simp

lemma rx_match_slash: 
  "rx_match (Lit ''/'') (q, s)
     = (case s of [] \<Rightarrow> [] | c # s' \<Rightarrow> if c = CHR ''/'' then [(Some CHR ''/'', s')] else [])"
  by (cases s) auto

lemma slash_tail_match:
  "rx_match (Seq (Lit ''/'') (Star (Cls P))) (q, s)
     = (case s of [] \<Rightarrow> [] | c # s' \<Rightarrow> if c = CHR ''/'' then cls_run P (Some CHR ''/'') s' else [])"
  by (cases s) (simp_all add: rx_match_Seq rx_match_slash rx_match_Star_Cls del: rx_match.simps)

lemma slash_not_space: "\<not> is_space CHR ''/''"
  by (simp add: is_space_def code_def)

lemma space_not_slash: "is_space c \<Longrightarrow> c \<noteq> CHR ''/''"
  by (auto simp add: is_space_def code_def)

lemma slash_run_match:
  "concat (map (rx_match (Seq (Lit ''/'') (Star (Cls is_space)))) (cls_run is_space q s))
     = (if starts_slash s then cls_run is_space (Some CHR ''/'') (tl (dropWhile is_space s)) else [])"
proof (induction s arbitrary: q)
  case Nil
  show ?case by (simp add: starts_slash_def slash_tail_match del: rx_match.simps)
next
  case (Cons c s)
  show ?case
  proof (cases "is_space c")
    case True
    then have "starts_slash (c # s) = starts_slash s" "dropWhile is_space (c # s) = dropWhile is_space s"
      by (simp_all add: starts_slash_def)
    with True space_not_slash [OF True] show ?thesis
      by (simp add: Cons.IH slash_tail_match del: rx_match.simps)
  next
    case False
    then show ?thesis
      using slash_not_space
      by (auto simp add: starts_slash_def slash_tail_match simp del: rx_match.simps)
  qed
qed

lemma SLASH_REGEX_match:
  "rx_match SLASH_REGEX (q, s)
     = (if starts_slash s then cls_run is_space (Some CHR ''/'') (tl (dropWhile is_space s)) else [])"
  unfolding SLASH_REGEX_def
  by (simp only: rx_match_Seq [of "Star (Cls is_space)"] rx_match_Star_Cls slash_run_match)

lemma starts_slash_shorter:
  "starts_slash s \<Longrightarrow> length (dropWhile is_space (tl (dropWhile is_space s))) < length s"
proof -
  assume "starts_slash s"
  then have "dropWhile is_space s \<noteq> []" by (auto simp add: starts_slash_def simp del: dropWhile_eq_Nil_conv split: list.splits)
  then have "length (tl (dropWhile is_space s)) < length (dropWhile is_space s)" by simp
  also have "\<dots> \<le> length s" by (rule length_dropWhile_le)
  finally show ?thesis using length_dropWhile_le [of is_space "tl (dropWhile is_space s)"] by simp
qed

lemma sub_from_SLASH: "sub_from SLASH_REGEX ''/'' q s = squeeze s"
proof (induction s arbitrary: q rule: squeeze.induct)
  case 1
  show ?case by (simp add: sub_from.simps SLASH_REGEX_match starts_slash_def)
next
  case (2 c s)
  show ?case
  proof (cases "starts_slash (c # s)")
    case True
    define s' where "s' = dropWhile is_space (tl (dropWhile is_space (c # s)))"
    obtain m ms where run: "cls_run is_space (Some CHR ''/'') (tl (dropWhile is_space (c # s))) = m # ms"
      using cls_run_hd [of is_space "Some CHR ''/''" "tl (dropWhile is_space (c # s))"]
      by (cases "cls_run is_space (Some CHR ''/'') (tl (dropWhile is_space (c # s)))") auto
    have "snd m = s'"
      using cls_run_hd [of is_space "Some CHR ''/''" "tl (dropWhile is_space (c # s))"] run
      by (simp add: s'_def)
    then obtain p' where m: "m = (p', s')" by (cases m) simp
    have match: "rx_match SLASH_REGEX (q, c # s) = (p', s') # ms"
      using True run m by (simp only: SLASH_REGEX_match if_True)
    have lt: "length s' < length (c # s)"
      using starts_slash_shorter [OF True] by (simp only: s'_def)
    have "sub_from SLASH_REGEX ''/'' q (c # s) = ''/'' @ sub_from SLASH_REGEX ''/'' p' s'"
      by (subst sub_from.simps) (simp only: match list.case prod.case lt if_True)
    also have "\<dots> = CHR ''/'' # squeeze s'"
      using "2.IH"(1) [OF True, of p'] by (simp add: s'_def)
    finally show ?thesis using True by (simp add: s'_def)
  next
    case False
    have match: "rx_match SLASH_REGEX (q, c # s) = []"
      using False by (simp only: SLASH_REGEX_match if_False)
    have "sub_from SLASH_REGEX ''/'' q (c # s) = c # sub_from SLASH_REGEX ''/'' (Some c) s"
      by (subst sub_from.simps) (simp only: match list.case)
    with False "2.IH"(2) [OF False] show ?thesis by simp
  qed
qed

section \<open>Properties of term extraction\<close>

lemma normalize_term_nonempty: "t \<noteq> [] \<Longrightarrow> normalize_term t \<noteq> []"
  by (simp add: normalize_term_def lower_def sub_def sub_from_nonempty)

lemma words_nonempty: "w \<in> set (map normalize_term (findall WORD_REGEX text)) \<Longrightarrow> w \<noteq> []"
  using findall_from_nonempty [OF nonnull_WORD_REGEX]
  by (auto simp add: findall_def normalize_term_nonempty)

lemma phrases_nonempty: "w \<in> set (map lower (findall PHRASE_REGEX text)) \<Longrightarrow> w \<noteq> []"
  using findall_from_nonempty [OF nonnull_PHRASE_REGEX]
  by (auto simp add: findall_def lower_def)

lemma extract_terms_nonempty: "t \<in> set (extract_terms text mode) \<Longrightarrow> t \<noteq> []"
  using words_nonempty [of t "text"] phrases_nonempty [of t "text"]
  by (auto simp add: extract_terms_def Let_def split: if_splits)

lemma code_char_of: "n < 256 \<Longrightarrow> code (char_of n) = n"
  by (simp add: code_def)

lemma code_lt: "code c < 256"
  by (simp add: code_def)

lemma is_upper_az_code: "is_upper_az c = (65 \<le> code c \<and> code c \<le> 90)"
  by (simp add: is_upper_az_def code_def less_eq_char_def)

lemma code_eq_iff: "(c = d) = (code c = code d)"
  by (auto simp add: code_def)

lemma code_lower_char:
  "code (lower_char c)
     = (if (65 \<le> code c \<and> code c \<le> 90) \<or> (192 \<le> code c \<and> code c \<le> 222 \<and> code c \<noteq> 215)
        then code c + 32 else code c)"
  using code_lt [of c] by (auto simp add: lower_char_def is_upper_az_code code_char_of)

lemma is_space_lower_char: "is_space (lower_char c) = is_space c"
  by (auto simp add: is_space_def code_lower_char)

lemma lower_char_slash: "(lower_char c = CHR ''/'') = (c = CHR ''/'')"
  by (auto simp add: code_eq_iff [of _ "CHR ''/''"] code_lower_char) (simp_all add: code_def)

lemma lower_char_idem: "lower_char (lower_char c) = lower_char c"
  by (simp add: code_eq_iff [of "lower_char (lower_char c)"] code_lower_char)

lemma lower_idem: "lower (lower s) = lower s"
  by (simp add: lower_def lower_char_idem)

lemma tight_lower: "tight (lower s) = tight s"
  unfolding lower_def
  by (induction s rule: tight.induct) (simp_all add: is_space_lower_char lower_char_slash)

lemma squeeze_Nil_iff: "(squeeze s = []) = (s = [])"
  by (cases s) simp_all

lemma starts_slash_Cons:
  "starts_slash (c # s) = (if is_space c then starts_slash s else c = CHR ''/'')"
  by (simp add: starts_slash_def)

lemma hd_squeeze: "s \<noteq> [] \<Longrightarrow> hd (squeeze s) = (if starts_slash s then CHR ''/'' else hd s)"
  by (cases s) simp_all

lemma tight_Cons:
  "tight (a # u) = ((u = [] \<or> (\<not> (is_space a \<and> hd u = CHR ''/'') \<and> \<not> (a = CHR ''/'' \<and> is_space (hd u))))
                    \<and> tight u)"
  by (cases u) auto

lemma starts_slash_hd: "s \<noteq> [] \<Longrightarrow> hd s = CHR ''/'' \<Longrightarrow> starts_slash s"
  using slash_not_space by (cases s) (auto simp add: starts_slash_Cons)

lemma not_space_hd_dropWhile: "dropWhile is_space s \<noteq> [] \<Longrightarrow> \<not> is_space (hd (dropWhile is_space s))"
  using hd_dropWhile [of is_space s] by blast

lemma tight_squeeze: "tight (squeeze s)"
proof (induction s rule: squeeze.induct)
  case 1
  show ?case by simp
next
  case (2 c s)
  show ?case
  proof (cases "starts_slash (c # s)")
    case True
    define s' where "s' = dropWhile is_space (tl (dropWhile is_space (c # s)))"
    have t: "tight (squeeze s')" using "2.IH"(1) [OF True] by (simp only: s'_def)
    have "squeeze s' = [] \<or> \<not> is_space (hd (squeeze s'))"
    proof (cases "s' = []")
      case True
      then show ?thesis by simp
    next
      case False
      then have "\<not> is_space (hd s')"
        unfolding s'_def by (rule not_space_hd_dropWhile)
      with False show ?thesis using slash_not_space by (simp add: hd_squeeze)
    qed
    with t have "tight (CHR ''/'' # squeeze s')"
      using slash_not_space by (auto simp add: tight_Cons)
    with True show ?thesis by (simp add: s'_def)
  next
    case False
    have t: "tight (squeeze s)" using "2.IH"(2) [OF False] .
    from False have c: "c \<noteq> CHR ''/''"
      using slash_not_space by (auto simp add: starts_slash_Cons)
    have "s \<noteq> [] \<Longrightarrow> is_space c \<Longrightarrow> hd (squeeze s) \<noteq> CHR ''/''"
    proof -
      assume s: "s \<noteq> []" and sp: "is_space c"
      with False have ns: "\<not> starts_slash s" by (simp add: starts_slash_Cons)
      with s have "hd s \<noteq> CHR ''/''" using starts_slash_hd by blast
      with s ns show ?thesis by (simp add: hd_squeeze)
    qed
    with t c have "tight (c # squeeze s)"
      by (auto simp add: tight_Cons squeeze_Nil_iff)
    with False show ?thesis by simp
  qed
qed

lemma tight_space_no_slash: "tight s \<Longrightarrow> s \<noteq> [] \<Longrightarrow> is_space (hd s) \<Longrightarrow> \<not> starts_slash s"
  by (induction s rule: tight.induct) (auto simp add: starts_slash_Cons starts_slash_def)

lemma squeeze_tight: "tight s \<Longrightarrow> squeeze s = s"
proof (induction s rule: squeeze.induct)
  case 1
  show ?case by simp
next
  case (2 c s)
  from "2.prems" have ts: "tight s" by (simp add: tight_Cons)
  show ?case
  proof (cases "starts_slash (c # s)")
    case True
    have nsp: "\<not> is_space c"
      using tight_space_no_slash [OF "2.prems"] True by auto
    with True have c: "c = CHR ''/''" by (simp add: starts_slash_Cons)
    from "2.prems" c have "s = [] \<or> \<not> is_space (hd s)" by (auto simp add: tight_Cons)
    then have d: "dropWhile is_space s = s" by (cases s) auto
    from nsp d have "dropWhile is_space (tl (dropWhile is_space (c # s))) = s" by simp
    with "2.IH"(1) [OF True] ts have "squeeze s = s" by simp
    with True c nsp d show ?thesis by simp
  next
    case False
    with "2.IH"(2) [OF False ts] show ?thesis by simp
  qed
qed

text \<open>
  C8. Term normalisation is idempotent: for every string \<open>t\<close>, normalising the normalised
  term returns it unchanged.
\<close>

theorem normalize_term_idempotent:
  "normalize_term (normalize_term t) = normalize_term t"
proof -
  have "tight (lower (squeeze t))" by (simp add: tight_lower tight_squeeze)
  then have "squeeze (lower (squeeze t)) = lower (squeeze t)" by (rule squeeze_tight)
  then show ?thesis
    by (simp add: normalize_term_def sub_def sub_from_SLASH lower_idem)
qed

theorem normalize_term_idempotent_witness:
  "normalize_term ''Input / Output'' = ''input/output''
   \<and> normalize_term (normalize_term ''Input / Output'') = normalize_term ''Input / Output''"
  using normalize_term_idempotent [of "''Input / Output''"] by (simp, code_simp)

lemma extract_words_filter:
  "extract_terms text ''words''
     = filter (\<lambda>w. w \<notin> set STOP_WORDS) (extract_terms text ''words_no_filter'')"
  by (simp add: extract_terms_def Let_def)

text \<open>
  C1, as the code has it. For the page text \<open>The Quick Brown Fox\<close>, mode \<open>words\<close> returns
  exactly quick, brown, fox (the stop word \<open>the\<close> is removed). Mode \<open>phrases\<close> returns
  these three words and one phrase, which is the whole capitalised run
  \<open>the quick brown fox\<close>: the phrase pattern starts at the capitalised \<open>The\<close>.
\<close>

theorem quick_brown_fox_terms:
  "extract_terms ''The Quick Brown Fox'' ''words'' = [''quick'', ''brown'', ''fox'']
   \<and> set (extract_terms ''The Quick Brown Fox'' ''phrases'')
       = {''the quick brown fox'', ''quick'', ''brown'', ''fox''}"
  by code_simp

text \<open>
  C1, as the claim states it, fails: in mode \<open>phrases\<close> the result for
  \<open>The Quick Brown Fox\<close> does not include the term \<open>quick brown fox\<close>.
\<close>

theorem quick_brown_fox_not_a_phrase:
  "''quick brown fox'' \<notin> set (extract_terms ''The Quick Brown Fox'' ''phrases'')"
  by code_simp

text \<open>
  C4. For every page text, the terms of mode \<open>words_no_filter\<close> include the terms of mode
  \<open>words\<close>, and what the filter drops are stop words only.
\<close>

theorem words_no_filter_superset:
  "set (extract_terms text ''words'') \<subseteq> set (extract_terms text ''words_no_filter'')
   \<and> set (extract_terms text ''words_no_filter'') - set (extract_terms text ''words'')
       \<subseteq> set STOP_WORDS"
  by (auto simp add: extract_words_filter)

theorem words_no_filter_superset_witness:
  "set (extract_terms ''The cat'' ''words'') \<subseteq> set (extract_terms ''The cat'' ''words_no_filter'')
   \<and> ''cat'' \<in> set (extract_terms ''The cat'' ''words'')
   \<and> ''the'' \<in> set (extract_terms ''The cat'' ''words_no_filter'')
                 - set (extract_terms ''The cat'' ''words'')"
proof -
  have a: "extract_terms ''The cat'' ''words'' = [''cat'']"
    by code_simp
  have b: "extract_terms ''The cat'' ''words_no_filter'' = [''the'', ''cat'']"
    by code_simp
  show ?thesis
    using words_no_filter_superset [of "''The cat''"] by (simp add: a b)
qed

text \<open>
  C9. For every page text and every mode other than \<open>words\<close>, \<open>words_no_filter\<close> and
  \<open>phrases\<close>, \<open>_extract_terms\<close> returns the empty list; no branch of it raises.
\<close>

theorem unknown_mode_no_terms:
  "mode \<notin> {''words'', ''words_no_filter'', ''phrases''} \<Longrightarrow> extract_terms text mode = []"
  by (simp add: extract_terms_def Let_def)

theorem unknown_mode_no_terms_witness:
  "''sentences'' \<notin> {''words'', ''words_no_filter'', ''phrases''}
   \<and> extract_terms ''The Quick Brown Fox'' ''sentences'' = []"
  using unknown_mode_no_terms [of "''sentences''" "''The Quick Brown Fox''"] by simp

section \<open>Properties of the index\<close>

lemma map_of_add_page:
  "map_of (add_page m t n) = (map_of m)(t \<mapsto> insert n (pages_of m t))"
  by (induction m t n rule: add_page.induct) (auto simp add: pages_of_def fun_eq_iff)

lemma pages_of_add_page:
  "pages_of (add_page m t n) k = (if k = t then insert n (pages_of m t) else pages_of m k)"
  by (simp add: pages_of_def map_of_add_page)

lemma map_of_add_terms:
  "map_of (add_terms m n ts) k
     = (if k \<in> set ts then Some (insert n (pages_of m k)) else map_of m k)"
  unfolding add_terms_def
proof (induction ts arbitrary: m)
  case Nil
  show ?case by simp
next
  case (Cons t ts)
  show ?case
    by (simp add: Cons.IH pages_of_add_page map_of_add_page)
qed

lemma pages_of_add_terms:
  "pages_of (add_terms m n ts) k
     = (if k \<in> set ts then insert n (pages_of m k) else pages_of m k)"
  by (simp add: pages_of_def map_of_add_terms)

lemma pages_with_Nil: "pages_with [] k = {}"
  by (simp add: pages_with_def)

lemma pages_with_Cons:
  "pages_with ((n, ts) # ps) k
     = (if k \<in> set ts then insert n (pages_with ps k) else pages_with ps k)"
  by (auto simp add: pages_with_def)

lemma map_of_add_all:
  "map_of (add_all m ps) k
     = (if pages_with ps k = {} then map_of m k else Some (pages_of m k \<union> pages_with ps k))"
  unfolding add_all_def
proof (induction ps arbitrary: m)
  case Nil
  show ?case by (simp add: pages_with_Nil)
next
  case (Cons p ps)
  obtain n ts where p: "p = (n, ts)" by (cases p)
  show ?case
    by (simp add: p Cons.IH pages_with_Cons map_of_add_terms pages_of_add_terms)
qed

text \<open>The page loop of \<open>extract_from_pdf\<close> records the pages \<open>i + 1\<close>, \<open>i + 2\<close>, ... with
  the terms extracted from their texts.\<close>

lemma scan_pages_add_all:
  "scan_pages m i texts mode
     = add_all m (zip (map (\<lambda>j. i + 1 + int j) [0..<length texts])
                      (map (\<lambda>t. extract_terms t mode) texts))"
proof (induction texts arbitrary: m i)
  case Nil
  show ?case by (simp add: add_all_def)
next
  case (Cons t texts)
  have "map (\<lambda>j. i + 1 + int j) [0..<Suc (length texts)]
          = (i + 1) # map (\<lambda>j. i + 1 + 1 + int j) [0..<length texts]"
    by (simp add: upt_conv_Cons map_Suc_upt [symmetric] del: upt_Suc)
  then show ?case
    by (simp add: Cons.IH add_all_def del: upt_Suc)
qed

lemma keys_add_all:
  "set (map fst (add_all m ps)) = set (map fst m) \<union> {k. pages_with ps k \<noteq> {}}"
proof -
  have "dom (map_of (add_all m ps)) = dom (map_of m) \<union> {k. pages_with ps k \<noteq> {}}"
    by (auto simp add: dom_def map_of_add_all)
  then show ?thesis by (simp add: dom_map_of_conv_image_fst)
qed

lemma keys_scan_pages:
  "k \<in> set (map fst (scan_pages [] i texts mode)) \<Longrightarrow> \<exists>text. k \<in> set (extract_terms text mode)"
  unfolding scan_pages_add_all keys_add_all
  by (auto simp add: pages_with_def dest!: set_zip_rightD)

text \<open>
  C2, as the claim states it, fails: in mode \<open>words\<close> the page text \<open>cat cat\<close> yields the
  term \<open>cat\<close> twice.
\<close>

theorem words_mode_repeats_terms:
  "\<not> distinct (extract_terms ''cat cat'' ''words'')"
  by code_simp

text \<open>
  C2, as the code has it. In mode \<open>phrases\<close> the result of \<open>_extract_terms\<close> holds no term
  twice. In mode \<open>words_no_filter\<close> the result holds one term for each token matched in the
  text, so a term occurs in it as often as tokens of the text normalise to it; mode
  \<open>words\<close> has the same occurrences, those of stop words left out. In every mode, the
  repeats make no difference to the index: recording the page's terms gives the same
  dict as recording them with the duplicates removed, because each term's pages form a
  set.
\<close>

theorem repeats_collapse_in_index:
  "distinct (extract_terms text ''phrases'')
   \<and> count_list (extract_terms text ''words_no_filter'') t
       = length (filter (\<lambda>w. normalize_term w = t) (findall WORD_REGEX text))
   \<and> count_list (extract_terms text ''words'') t
       = (if t \<in> set STOP_WORDS then 0
          else length (filter (\<lambda>w. normalize_term w = t) (findall WORD_REGEX text)))
   \<and> map_of (add_terms term_map n (extract_terms text mode))
       = map_of (add_terms term_map n (remdups (extract_terms text mode)))"
proof -
  have c: "count_list (map f xs) y = length (filter (\<lambda>x. f x = y) xs)" for f :: "string \<Rightarrow> string" and xs y
    by (induction xs) simp_all
  have f: "count_list (filter P xs) y = (if P y then count_list xs y else 0)" for P and xs :: "string list" and y
    by (induction xs) auto
  have 1: "distinct (extract_terms text ''phrases'')"
    by (simp add: extract_terms_def Let_def)
  have 2: "extract_terms text ''words_no_filter'' = map normalize_term (findall WORD_REGEX text)"
    by (simp add: extract_terms_def Let_def)
  have 3: "extract_terms text ''words''
             = filter (\<lambda>w. w \<notin> set STOP_WORDS) (map normalize_term (findall WORD_REGEX text))"
    by (simp add: extract_terms_def Let_def)
  have 4: "map_of (add_terms term_map n (extract_terms text mode))
             = map_of (add_terms term_map n (remdups (extract_terms text mode)))"
    by (simp add: fun_eq_iff map_of_add_terms)
  show ?thesis
    unfolding 2 3 using 1 4 by (simp only: c f) simp
qed

theorem repeats_collapse_in_index_witness:
  "findall WORD_REGEX ''cat Cat'' = [''cat'', ''Cat'']
   \<and> count_list (extract_terms ''cat Cat'' ''words_no_filter'') ''cat'' = 2
   \<and> count_list (extract_terms ''cat Cat'' ''words'') ''cat'' = 2"
proof -
  have e: "findall WORD_REGEX ''cat Cat'' = [''cat'', ''Cat'']
           \<and> normalize_term ''cat'' = ''cat'' \<and> normalize_term ''Cat'' = ''cat''
           \<and> ''cat'' \<notin> set STOP_WORDS"
    by code_simp
  show ?thesis
    using repeats_collapse_in_index [of "''cat Cat''" "''cat''"] e by simp
qed

text \<open>
  C5. Recording the same (page number, terms) pairs into the empty index in any order
  gives the same dict, and the pages of a term in it are exactly the pages whose terms
  contain it: the index is a union over the pages.
\<close>

theorem accumulation_order_independent:
  "mset ps = mset qs \<Longrightarrow>
     map_of (add_all [] ps) = map_of (add_all [] qs)
     \<and> (\<forall>k. pages_of (add_all [] ps) k = {n. \<exists>ts. (n, ts) \<in> set ps \<and> k \<in> set ts})"
proof -
  assume "mset ps = mset qs"
  then have "set ps = set qs" by (rule mset_eq_setD)
  then have "pages_with ps = pages_with qs" by (simp add: pages_with_def fun_eq_iff)
  then have "map_of (add_all [] ps) = map_of (add_all [] qs)"
    by (simp add: fun_eq_iff map_of_add_all)
  moreover have "pages_of (add_all [] ps) k = pages_with ps k" for k
    by (simp add: pages_of_def map_of_add_all)
  ultimately show ?thesis by (simp add: pages_with_def)
qed

theorem accumulation_order_independent_witness:
  "mset [(1, [''cat'']), (2, [''cat'', ''dog''])] = mset [(2, [''cat'', ''dog'']), (1::int, [''cat''])]
   \<and> map_of (add_all [] [(1, [''cat'']), (2, [''cat'', ''dog''])])
       = map_of (add_all [] [(2, [''cat'', ''dog'']), (1, [''cat''])])"
  using accumulation_order_independent
          [of "[(1, [''cat'']), (2, [''cat'', ''dog''])]" "[(2, [''cat'', ''dog'']), (1, [''cat''])]"]
  by simp

section \<open>Properties of the output file\<close>

text \<open>Whatever the buffers do, closing the file leaves on the device what handing over
  all the bytes at once would have left.\<close>

lemma utf8_append: "utf8 (a @ b) = utf8 a @ utf8 b"
  by (simp add: utf8_def)

lemma final_eq:
  "final f = (case room f of
                None \<Rightarrow> (disk f @ pending f, True)
              | Some r \<Rightarrow> if length (pending f) \<le> r then (disk f @ pending f, True)
                          else (disk f @ take r (pending f), False))"
  by (simp add: final_def f_close_def push_def Let_def split: option.split)

lemma push_final:
  "push k f = (f', ok) \<Longrightarrow>
     (fst (final (f'\<lparr>pending := pending f' @ more_bytes\<rparr>)), ok \<and> snd (final (f'\<lparr>pending := pending f' @ more_bytes\<rparr>)))
       = final (f\<lparr>pending := pending f @ more_bytes\<rparr>)"
proof (cases "room f")
  case None
  assume "push k f = (f', ok)"
  with None show ?thesis
    by (auto simp add: push_def final_eq Let_def)
next
  case (Some r)
  assume p: "push k f = (f', ok)"
  show ?thesis
  proof (cases "length (take k (pending f)) \<le> r")
    case True
    note fits = True
    have "take k (pending f) @ take (r - length (take k (pending f))) (drop k (pending f) @ more_bytes)
            = take r (pending f @ more_bytes)"
    proof (cases "k \<le> length (pending f)")
      case True
      with fits have "k \<le> r" by simp
      then have "take r (pending f @ more_bytes) = take (k + (r - k)) (pending f @ more_bytes)" by simp
      also have "\<dots> = take k (pending f @ more_bytes) @ take (r - k) (drop k (pending f @ more_bytes))"
        by (rule take_add)
      finally show ?thesis using True by simp
    next
      case False
      with fits show ?thesis by simp
    qed
    with p Some True show ?thesis
      by (auto simp add: push_def final_eq Let_def)
  next
    case False
    with p Some show ?thesis
      by (auto simp add: push_def final_eq Let_def min_def split: if_splits)
  qed
qed

lemma push_failed:
  "push k f = (f', False) \<Longrightarrow> final (f'\<lparr>pending := pending f' @ more_bytes\<rparr>) = (disk f', False)"
  by (auto simp add: push_def final_eq Let_def min_def split: option.splits if_splits)

lemma write_chunks_final:
  "write_chunks buffering i f cs = (f', ok) \<Longrightarrow>
     (fst (final (f'\<lparr>pending := pending f' @ more_bytes\<rparr>)), ok \<and> snd (final (f'\<lparr>pending := pending f' @ more_bytes\<rparr>)))
       = final (f\<lparr>pending := pending f @ utf8 (concat cs) @ more_bytes\<rparr>)"
proof (induction cs arbitrary: i f)
  case Nil
  then show ?case by (auto simp add: utf8_def)
next
  case (Cons c cs)
  let ?f1 = "f\<lparr>pending := pending f @ utf8 c\<rparr>"
  let ?rest = "utf8 (concat cs) @ more_bytes"
  obtain f2 ok2 where w: "f_write buffering i f c = (f2, ok2)" by (cases "f_write buffering i f c")
  then have p: "push (buffering i (length (pending ?f1))) ?f1 = (f2, ok2)"
    by (simp add: f_write_def Let_def)
  have all: "f\<lparr>pending := pending f @ utf8 (concat (c # cs)) @ more_bytes\<rparr>
               = ?f1\<lparr>pending := pending ?f1 @ ?rest\<rparr>"
    by (simp add: utf8_append)
  note pf = push_final [OF p, where more_bytes = ?rest]
  show ?case
  proof (cases ok2)
    case True
    with Cons.prems w have "write_chunks buffering (Suc i) f2 cs = (f', ok)" by simp
    from Cons.IH [OF this] pf True show ?thesis by (simp only: all) simp
  next
    case False
    with Cons.prems w have f': "f' = f2" "ok = False" by simp_all
    from p False have "final (f2\<lparr>pending := pending f2 @ more_bytes\<rparr>) = (disk f2, False)"
      "final (f2\<lparr>pending := pending f2 @ ?rest\<rparr>) = (disk f2, False)"
      by (simp_all add: push_failed)
    with pf False f' show ?thesis by (simp only: all)
  qed
qed

lemma save_results_outcome:
  "save_results_as_txt buffering fault file term_map =
     (case group_terms [] (sort (map fst term_map)) of
        Inl e \<Rightarrow> (file, Some e)
      | Inr grouped_terms \<Rightarrow>
          (let out = utf8 (concat (chunks term_map grouped_terms))
           in case fault of
                NoFault \<Rightarrow> (Some out, None)
              | OpenFails \<Rightarrow> (file, Some IOFailure)
              | DeviceFull n \<Rightarrow>
                  if length out \<le> n then (Some out, None)
                  else (Some (take n out), Some IOFailure)))"
proof (cases "group_terms [] (sort (map fst term_map))")
  case (Inl e)
  then show ?thesis by (simp add: save_results_as_txt_def)
next
  case (Inr g)
  define f0 where "f0 = \<lparr>disk = [], pending = [],
                          room = (case fault of DeviceFull n \<Rightarrow> Some n | _ \<Rightarrow> None)\<rparr>"
  obtain f' written where w: "write_chunks buffering 0 f0 (chunks term_map g) = (f', written)"
    by (cases "write_chunks buffering 0 f0 (chunks term_map g)")
  obtain f'' closed where c: "f_close f' = (f'', closed)" by (cases "f_close f'")
  from c have fin: "final f' = (disk f'', closed)" by (simp add: final_def)
  from write_chunks_final [OF w, where more_bytes = "[]"] fin
  have "(disk f'', written \<and> closed) = final (f0\<lparr>pending := utf8 (concat (chunks term_map g))\<rparr>)"
    by (simp add: f0_def)
  then have "(disk f'', written \<and> closed)
               = (case fault of
                    DeviceFull n \<Rightarrow>
                      if length (utf8 (concat (chunks term_map g))) \<le> n
                      then (utf8 (concat (chunks term_map g)), True)
                      else (take n (utf8 (concat (chunks term_map g))), False)
                  | _ \<Rightarrow> (utf8 (concat (chunks term_map g)), True))"
    by (simp add: final_eq f0_def split: io_fault.split)
  with Inr w c show ?thesis
    by (auto simp add: save_results_as_txt_def Let_def f0_def split: io_fault.splits if_splits)
qed

lemma save_results_no_fault:
  assumes "group_terms [] (sort (map fst term_map)) = Inr grouped_terms"
  shows "save_results_as_txt buffering NoFault file term_map
           = (Some (utf8 (concat (chunks term_map grouped_terms))), None)"
  using assms by (simp add: save_results_outcome)

lemma utf8_ascii: "\<forall>c \<in> set s. code c < 128 \<Longrightarrow> utf8 s = s"
  by (induction s) (simp_all add: utf8_def utf8_char_def)

section \<open>Properties of rendering\<close>

lemma is_lower_az_code: "is_lower_az c = (97 \<le> code c \<and> code c \<le> 122)"
  by (simp add: is_lower_az_def code_def less_eq_char_def)

lemma group_terms_Cons:
  "term \<noteq> [] \<Longrightarrow>
     group_terms g (term # rest) = group_terms (group_append g (bucket term) term) rest"
  by (cases "term") (simp_all add: bucket_def Let_def)

lemma group_terms_fold:
  "\<forall>t \<in> set ts. t \<noteq> [] \<Longrightarrow>
     group_terms g ts = Inr (fold (\<lambda>t g. group_append g (bucket t) t) ts g)"
proof (induction ts arbitrary: g)
  case Nil
  show ?case by simp
next
  case (Cons t ts)
  then have "t \<noteq> []" "\<forall>t \<in> set ts. t \<noteq> []" by simp_all
  then show ?case using Cons.IH by (simp add: group_terms_Cons del: group_terms.simps)
qed













text \<open>The keys of an index built by the page loop start with a lower-case letter of
  \<open>a-z\<close>, a hyphen, a full stop or a slash.\<close>

lemma leads_shape: "leads P (Seq WordB (Seq (Seq (Cls P) x) y))"
  unfolding leads_def
proof (intro allI impI)
  fix p s
  assume m: "rx_match (Seq WordB (Seq (Seq (Cls P) x) y)) (p, s) \<noteq> []"
  show "s \<noteq> [] \<and> P (hd s)"
  proof (cases s)
    case Nil
    with m show ?thesis by (simp split: if_splits)
  next
    case (Cons c cs)
    with m show ?thesis by (cases "P c") (simp_all split: if_splits)
  qed
qed

lemma leads_WORD_REGEX: "leads word_class WORD_REGEX"
  unfolding WORD_REGEX_def by (rule leads_shape)

lemma leads_PHRASE_REGEX: "leads is_upper_az PHRASE_REGEX"
  unfolding PHRASE_REGEX_def cap_word_def by (rule leads_shape)

lemma findall_from_lead:
  "leads P r \<Longrightarrow> nonnull r \<Longrightarrow> t \<in> set (findall_from r p s) \<Longrightarrow> P (hd t)"
proof (induction r p s rule: findall_from.induct)
  case (1 r p s)
  show ?case
  proof (cases "rx_match r (p, s)")
    case Nil
    note no_match = Nil
    show ?thesis
    proof (cases s)
      case Nil
      with no_match "1.prems" show ?thesis
        by (simp add: findall_from.simps)
    next
      case (Cons c cs)
      from no_match "1.prems" Cons
      have "t \<in> set (findall_from r (Some c) cs)"
        by (simp add: findall_from.simps [of r p "c # cs"])
      with "1.IH"(1) [OF no_match Cons "1.prems"(1,2)] show ?thesis
        by simp
    qed
  next
    case (Cons m ms)
    obtain p' s' where m: "m = (p', s')" by (cases m)
    have lt: "length s' < length s"
      using rx_match_nonnull [of r m "(p, s)"] "1.prems"(2) Cons m by simp
    have "s \<noteq> [] \<and> P (hd s)"
      using "1.prems"(1) Cons unfolding leads_def by (metis list.distinct(1))
    with lt have hd: "P (hd (take (length s - length s') s))"
      by (cases s) (simp_all add: take_Cons')
    from "1.prems" Cons m lt have "t = take (length s - length s') s \<or> t \<in> set (findall_from r p' s')"
      by (simp add: findall_from.simps [of r p s])
    then show ?thesis using hd "1.IH"(2) [OF Cons m [symmetric] lt "1.prems"(1,2)]
      by auto
  qed
qed

lemma term_lead_code: "term_lead c = ((97 \<le> code c \<and> code c \<le> 122) \<or> code c = 45 \<or> code c = 46 \<or> code c = 47)"
  by (simp add: term_lead_def is_lower_az_code code_eq_iff [of c]) (simp add: code_def)

lemma word_class_code:
  "word_class c = ((97 \<le> code c \<and> code c \<le> 122) \<or> (65 \<le> code c \<and> code c \<le> 90)
                   \<or> code c = 45 \<or> code c = 46 \<or> code c = 47)"
  by (simp add: word_class_def is_letter_def is_lower_az_code is_upper_az_code code_eq_iff [of c])
     (simp add: code_def)

lemma term_lead_lower_char: "word_class c \<Longrightarrow> term_lead (lower_char c)"
  by (auto simp add: term_lead_code word_class_code code_lower_char)

lemma term_lead_slash: "term_lead CHR ''/''"
  by (simp add: term_lead_def)

lemma normalize_term_lead:
  assumes "t \<noteq> []" "word_class (hd t)"
  shows "term_lead (hd (normalize_term t))"
proof -
  have n: "normalize_term t = map lower_char (squeeze t)"
    by (simp add: normalize_term_def sub_def sub_from_SLASH lower_def)
  have "squeeze t \<noteq> []" using assms(1) by (simp add: squeeze_Nil_iff)
  then have "hd (normalize_term t) = lower_char (hd (squeeze t))"
    by (simp add: n hd_map)
  also have "hd (squeeze t) = (if starts_slash t then CHR ''/'' else hd t)"
    using assms(1) by (rule hd_squeeze)
  finally show ?thesis
    using assms(2) term_lead_lower_char [of "hd t"] term_lead_lower_char [of "CHR ''/''"]
    by (simp add: word_class_def)
qed

lemma extracted_term_lead:
  assumes "t \<in> set (extract_terms text mode)"
  shows "term_lead (hd t)"
proof -
  have w: "term_lead (hd w)" if "w \<in> set (map normalize_term (findall WORD_REGEX text))" for w
  proof -
    from that obtain raw where raw: "raw \<in> set (findall_from WORD_REGEX None text)" "w = normalize_term raw"
      by (auto simp add: findall_def)
    have "raw \<noteq> []" using findall_from_nonempty [OF nonnull_WORD_REGEX raw(1)] .
    moreover have "word_class (hd raw)"
      using findall_from_lead [OF leads_WORD_REGEX nonnull_WORD_REGEX raw(1)] .
    ultimately show ?thesis using raw(2) normalize_term_lead by simp
  qed
  have p: "term_lead (hd w)" if "w \<in> set (map lower (findall PHRASE_REGEX text))" for w
  proof -
    from that obtain raw where raw: "raw \<in> set (findall_from PHRASE_REGEX None text)" "w = lower raw"
      by (auto simp add: findall_def)
    have "raw \<noteq> []" using findall_from_nonempty [OF nonnull_PHRASE_REGEX raw(1)] .
    moreover have "is_upper_az (hd raw)"
      using findall_from_lead [OF leads_PHRASE_REGEX nonnull_PHRASE_REGEX raw(1)] .
    ultimately show ?thesis
      using raw(2) term_lead_lower_char [of "hd raw"]
      by (simp add: lower_def hd_map word_class_def is_letter_def)
  qed
  from assms w [of t] p [of t] show ?thesis
    by (auto simp add: extract_terms_def Let_def split: if_splits)
qed

lemma index_keys_lead:
  "\<forall>term \<in> set (map fst (scan_pages [] i pages mode)). term \<noteq> [] \<and> code (hd term) < 128"
proof
  fix k assume "k \<in> set (map fst (scan_pages [] i pages mode))"
  then obtain text' where t: "k \<in> set (extract_terms text' mode)"
    using keys_scan_pages by blast
  then have "term_lead (hd k)" by (rule extracted_term_lead)
  then have "code (hd k) < 128" by (auto simp add: term_lead_code)
  with extract_terms_nonempty [OF t] show "k \<noteq> [] \<and> code (hd k) < 128" by simp
qed



text \<open>
  C7. Two pages with the texts \<open>cat\<close> and \<open>cat dog\<close> give the index
  \<open>{cat: {1, 2}, dog: {2}}\<close>. Its rendering is the header, the block of bucket C with the
  term line of \<open>cat\<close> and the pages \<open>1, 2\<close>, a blank line, the block of bucket D with the
  term line of \<open>dog\<close> and the page \<open>2\<close>, and the closing bracket; each term line carries
  the term as a bold label and ends in a backslash.
\<close>

theorem cat_dog_index:
  "extract_from_pdf True [''cat'', ''cat dog''] ''words'' = Inr [(''cat'', {1, 2}), (''dog'', {2})]
   \<and> save_results_as_txt buffering NoFault None [(''cat'', {1, 2}), (''dog'', {2})]
       = (Some (concat header_chunks
            @ ''  // --- C ---'' @ nl
            @ ''  #text(size: 18pt, weight: '' @ dq @ ''bold'' @ dq @ '')[C]'' @ nl
            @ ''  #line(length: 100%)'' @ nl
            @ ''  #v(0.8em)'' @ nl
            @ ''  #text(weight: '' @ dq @ ''bold'' @ dq @ '')[cat]: 1, 2'' @ bs @ nl
            @ nl
            @ ''  // --- D ---'' @ nl
            @ ''  #text(size: 18pt, weight: '' @ dq @ ''bold'' @ dq @ '')[D]'' @ nl
            @ ''  #line(length: 100%)'' @ nl
            @ ''  #v(0.8em)'' @ nl
            @ ''  #text(weight: '' @ dq @ ''bold'' @ dq @ '')[dog]: 2'' @ bs @ nl
            @ '']''), None)"
proof -
  have idx: "extract_from_pdf True [''cat'', ''cat dog''] ''words''
               = Inr [(''cat'', {1, 2}), (''dog'', {2})]"
    by code_simp
  have grp: "group_terms [] (sort (map fst [(''cat'', {1, 2 :: int}), (''dog'', {2})]))
               = Inr [(''C'', [''cat'']), (''D'', [''dog''])]"
    by code_simp
  have out: "utf8 (concat (chunks [(''cat'', {1, 2}), (''dog'', {2})]
                                  [(''C'', [''cat'']), (''D'', [''dog''])]))
       = concat header_chunks
            @ ''  // --- C ---'' @ nl
            @ ''  #text(size: 18pt, weight: '' @ dq @ ''bold'' @ dq @ '')[C]'' @ nl
            @ ''  #line(length: 100%)'' @ nl
            @ ''  #v(0.8em)'' @ nl
            @ ''  #text(weight: '' @ dq @ ''bold'' @ dq @ '')[cat]: 1, 2'' @ bs @ nl
            @ nl
            @ ''  // --- D ---'' @ nl
            @ ''  #text(size: 18pt, weight: '' @ dq @ ''bold'' @ dq @ '')[D]'' @ nl
            @ ''  #line(length: 100%)'' @ nl
            @ ''  #v(0.8em)'' @ nl
            @ ''  #text(weight: '' @ dq @ ''bold'' @ dq @ '')[dog]: 2'' @ bs @ nl
            @ '']''"
    by code_simp
  show ?thesis
    using idx save_results_no_fault [OF grp, of buffering None] by (simp only: out)
qed

text \<open>
  C3, as the claim states it, fails: on a device that takes 100 bytes, with buffers that
  hold everything back until the file is closed, the call raises and leaves the first
  100 bytes of the rendering in the file, which is neither what the file held before nor
  the complete rendering.
\<close>

theorem device_full_leaves_partial_file:
  "save_results_as_txt (\<lambda>i n. 0) (DeviceFull 100) (Some ''old index'') [(''cat'', {1})]
     = (Some (''// ==============================================='' @ nl
              @ ''// Typst Index Layout by Mutro'' @ nl
              @ ''// Based on previo''), Some IOFailure)
   \<and> save_results_as_txt (\<lambda>i n. 0) NoFault (Some ''old index'') [(''cat'', {1})]
     = (Some (concat header_chunks
            @ ''  // --- C ---'' @ nl
            @ ''  #text(size: 18pt, weight: '' @ dq @ ''bold'' @ dq @ '')[C]'' @ nl
            @ ''  #line(length: 100%)'' @ nl
            @ ''  #v(0.8em)'' @ nl
            @ ''  #text(weight: '' @ dq @ ''bold'' @ dq @ '')[cat]: 1'' @ bs @ nl
            @ '']''), None)"
  by code_simp

text \<open>
  C3, as the code has it. The terms are grouped before the file is opened, so a failure
  there leaves the file as it was, and so does a failure to open it. After that the file
  is opened, which empties it, and the rendering is handed to the buffered file piece by
  piece: on a device that takes fewer bytes than the rendering has, the call raises and
  the file holds exactly the bytes the device took, a prefix of the rendering, whatever
  the buffering; otherwise the file holds the whole rendering.
\<close>

theorem save_results_file_contents:
  "save_results_as_txt buffering fault file term_map =
     (case group_terms [] (sort (map fst term_map)) of
        Inl e \<Rightarrow> (file, Some e)
      | Inr grouped_terms \<Rightarrow>
          (let out = utf8 (concat (chunks term_map grouped_terms))
           in case fault of
                NoFault \<Rightarrow> (Some out, None)
              | OpenFails \<Rightarrow> (file, Some IOFailure)
              | DeviceFull n \<Rightarrow>
                  if length out \<le> n then (Some out, None)
                  else (Some (take n out), Some IOFailure)))"
  by (rule save_results_outcome)

lemma save_results_no_IndexError:
  "\<forall>k \<in> set (map fst term_map). k \<noteq> [] \<Longrightarrow>
     snd (save_results_as_txt buffering fault file term_map) \<noteq> Some IndexError"
proof -
  assume "\<forall>k \<in> set (map fst term_map). k \<noteq> []"
  then have "\<forall>t \<in> set (sort (map fst term_map)). t \<noteq> []" by simp
  from group_terms_fold [OF this]
  obtain g where "group_terms [] (sort (map fst term_map)) = Inr g" by blast
  then show ?thesis
    by (cases fault) (simp_all add: save_results_outcome Let_def)
qed

text \<open>
  C10. Every term that \<open>_extract_terms\<close> returns, in every mode and for every text, is a
  non-empty string, so \<open>save_results_as_txt\<close> never raises \<open>IndexError\<close> at \<open>term[0]\<close>
  on an index built by the page loop of \<open>extract_from_pdf\<close>.
\<close>

theorem extracted_terms_nonempty:
  "(\<forall>term \<in> set (extract_terms text mode). term \<noteq> [])
   \<and> snd (save_results_as_txt buffering fault file (scan_pages [] 0 pages mode)) \<noteq> Some IndexError"
proof
  show "\<forall>term \<in> set (extract_terms text mode). term \<noteq> []"
    using extract_terms_nonempty by blast
  have "\<forall>k \<in> set (map fst (scan_pages [] 0 pages mode)). k \<noteq> []"
    using keys_scan_pages extract_terms_nonempty by blast
  then show "snd (save_results_as_txt buffering fault file (scan_pages [] 0 pages mode)) \<noteq> Some IndexError"
    by (rule save_results_no_IndexError)
qed

theorem extracted_terms_nonempty_witness:
  "extract_terms ''a / b 3-c'' ''words_no_filter'' = [''a/b'', ''-c'']
   \<and> snd (save_results_as_txt (\<lambda>i n. n) NoFault None (scan_pages [] 0 [''a / b 3-c''] ''words_no_filter''))
        \<noteq> Some IndexError"
proof -
  have "extract_terms ''a / b 3-c'' ''words_no_filter'' = [''a/b'', ''-c'']"
    by code_simp
  then show ?thesis
    using extracted_terms_nonempty [of "''a / b 3-c''" "''words_no_filter''" "\<lambda>i n. n" NoFault None "[''a / b 3-c'']"]
    by simp
qed

end
